theory Spec2Isabelle
  imports Main "HOL-Library.Log_Nat"
begin

section \<open>The calendar's date arithmetic (Calendar.tsx)\<close>

text \<open>
  The pure functions at the end of \<^verbatim>\<open>src/components/Calendar/Calendar.tsx\<close>:
  \<^verbatim>\<open>getDatesByWeek\<close>, \<^verbatim>\<open>getYearsByDecade\<close>, \<^verbatim>\<open>getDecade\<close> and \<^verbatim>\<open>isDisabledDate\<close>.

  JavaScript numbers that hold integers are modelled as \<^typ>\<open>int\<close>. In the decade functions,
  whose argument is a year of the calendar, \<^verbatim>\<open>Math.floor(a / b)\<close> for a positive
  \<^verbatim>\<open>b\<close> is \<open>a div b\<close> (both round towards minus infinity); that is exact as long as
  every intermediate value stays below \<open>2 ^ 53\<close> in magnitude. In \<^verbatim>\<open>getDatesByWeek\<close>,
  whose \<^verbatim>\<open>weekStart\<close> is a prop that nothing validates, every operation is rounded as
  the IEEE doubles round it.
\<close>

subsection \<open>Decades\<close>

text \<open>
  \<^verbatim>\<open>
  function getDecade(year: number) {
    const thisYear = new Date().getFullYear();
    if (year <= thisYear) {
      const diff = thisYear - year + 1;
      const d = Math.floor(diff / 10);
      const end = thisYear - d * 10;
      return [end - 9, end];
    }
    const diff = year - thisYear + 1;
    const d = Math.floor(diff / 10);
    const start = thisYear + d * 10 + 1;
    return [start, start + 9];
  }
  \<close>
  The wall-clock read \<^verbatim>\<open>new Date().getFullYear()\<close> is the first parameter \<open>thisYear\<close>.
  The result is the two-element array the source returns.
\<close>

definition getDecade :: "int \<Rightarrow> int \<Rightarrow> int list" where
  "getDecade thisYear year =
     (if year \<le> thisYear then
        (let diff = thisYear - year + 1;
             d = diff div 10;
             end = thisYear - d * 10
         in [end - 9, end])
      else
        (let diff = year - thisYear + 1;
             d = diff div 10;
             start = thisYear + d * 10 + 1
         in [start, start + 9]))"

text \<open>
  The decade as section 4.2 of the specification words it, on a record with the two fields
  of the specification's \<open>Decade\<close>; it is compared with \<^const>\<open>getDecade\<close> below.
\<close>

record Decade =
  startYear :: int
  endYear :: int

definition decade_spec :: "int \<Rightarrow> int \<Rightarrow> Decade" where
  "decade_spec T Y =
     (if Y \<le> T then
        (let diff = T - Y + 1; d = diff div 10; e = T - d * 10; s = e - 9
         in \<lparr>startYear = s, endYear = e\<rparr>)
      else
        (let diff = Y - T + 1; d = diff div 10; s = T + d * 10 + 1; e = s + 9
         in \<lparr>startYear = s, endYear = e\<rparr>))"

subsection \<open>The year window\<close>

text \<open>
  \<^verbatim>\<open>
  function getYearsByDecade(year: number) {
    const years: number[] = [];
    const decade = getDecade(year);
    for (let i = decade[0] - 1; i <= decade[1] + 1; i++) {
      years.push(i);
    }
    return years;
  }
  \<close>
  The loop is \<open>years_loop\<close>: \<open>hi\<close> is \<^verbatim>\<open>decade[1] + 1\<close>, and \<open>years\<close> the array built so far.
\<close>

function years_loop :: "int \<Rightarrow> int \<Rightarrow> int list \<Rightarrow> int list" where
  "years_loop hi i years = (if i \<le> hi then years_loop hi (i + 1) (years @ [i]) else years)"
  by pat_completeness auto
termination
  by (relation "measure (\<lambda>(hi, i, years). nat (hi + 1 - i))") auto

declare years_loop.simps [simp del]

definition getYearsByDecade :: "int \<Rightarrow> int \<Rightarrow> int list" where
  "getYearsByDecade thisYear year =
     (let decade = getDecade thisYear year
      in years_loop (decade ! 1 + 1) (decade ! 0 - 1) [])"

subsection \<open>Dates\<close>

text \<open>
  A \<^verbatim>\<open>Date\<close> object is modelled by its time value, the milliseconds since
  1 January 1970, with the local time zone taken as UTC. The functions below are the date
  arithmetic of the ECMAScript language: \<open>Day\<close>, \<open>WeekDay\<close>, \<open>DayFromYear\<close>,
  \<open>DaysInYear\<close> and \<open>MakeDay\<close>, which normalises a month outside 0..11 into the year and
  lets a day number below 1 or beyond the month's length roll into the neighbouring months.
  The bound of the time value (8.64e15 milliseconds on either side of the epoch) is not
  represented.
\<close>

type_synonym Date = int

definition msPerDay :: int where
  "msPerDay = 86400000"

definition Day :: "Date \<Rightarrow> int" where
  "Day t = t div msPerDay"

definition WeekDay :: "Date \<Rightarrow> int" where
  "WeekDay t = (Day t + 4) mod 7"

definition DaysInYear :: "int \<Rightarrow> int" where
  "DaysInYear y =
     (if y mod 4 \<noteq> 0 then 365
      else if y mod 100 \<noteq> 0 then 366
      else if y mod 400 \<noteq> 0 then 365
      else 366)"

definition DayFromYear :: "int \<Rightarrow> int" where
  "DayFromYear y =
     365 * (y - 1970) + (y - 1969) div 4 - (y - 1901) div 100 + (y - 1601) div 400"

text \<open>The day within the year on which month \<open>mn\<close> (0..11) begins.\<close>

definition MonthStart :: "int \<Rightarrow> int \<Rightarrow> int" where
  "MonthStart y mn =
     (let leap = DaysInYear y - 365
      in if mn = 0 then 0
         else if mn = 1 then 31
         else [59, 90, 120, 151, 181, 212, 243, 273, 304, 334] ! nat (mn - 2) + leap)"

definition MakeDay :: "int \<Rightarrow> int \<Rightarrow> int \<Rightarrow> int" where
  "MakeDay year month date =
     (let ym = year + month div 12;
          mn = month mod 12
      in DayFromYear ym + MonthStart ym mn + date - 1)"

text \<open>
  \<^verbatim>\<open>new Date(year, month, date)\<close>: a year from 0 to 99 stands for 1900 + year, and the
  time of day is midnight.
\<close>

definition newDate :: "int \<Rightarrow> int \<Rightarrow> int \<Rightarrow> Date" where
  "newDate year month date =
     (let yr = (if 0 \<le> year \<and> year \<le> 99 then 1900 + year else year)
      in MakeDay yr month date * msPerDay)"

text \<open>\<^verbatim>\<open>date.getDay()\<close>: 0 is Sunday, 6 is Saturday.\<close>

definition getDay :: "Date \<Rightarrow> int" where
  "getDay t = WeekDay t"

text \<open>
  Modelled from the spec: \<^verbatim>\<open>getFirstDateOfMonth\<close> of \<^verbatim>\<open>utils/date\<close> is not among the
  sources. Section 4.1 has the grid computation "determine the weekday index of day 1 of
  the target month", so the helper is the date of day 1 of that month.
\<close>

definition getFirstDateOfMonth :: "int \<Rightarrow> int \<Rightarrow> Date" where
  "getFirstDateOfMonth year month = newDate year month 1"

text \<open>
  Modelled from the spec: \<^verbatim>\<open>lessThanDate\<close> of \<^verbatim>\<open>utils/date\<close> is not among the sources.
  Section 4.4 has it as "strict chronological ordering by calendar date only": the time of
  day is ignored, so the day numbers of the two time values are compared.
\<close>

definition lessThanDate :: "Date \<Rightarrow> Date \<Rightarrow> bool" where
  "lessThanDate a b = (Day a < Day b)"

subsection \<open>Doubles that hold integers\<close>

text \<open>
  \<^verbatim>\<open>weekStart\<close> is a prop that nothing validates, so the arithmetic of
  \<^verbatim>\<open>getDatesByWeek\<close> is modelled as the doubles compute it: the exact result of an
  operation, rounded to the nearest double, a tie going to the even significand. A double
  has 53 significant bits, so every integer up to \<open>2^53\<close> in magnitude is a double, and
  beyond that only every second, fourth, ... integer is. No operation here overflows or
  reaches the subnormal range: each adds a small integer to a double or divides by 7. An
  argument that is an integer is itself a double: an integer that no double holds is no
  input.

  \<open>round_half_even a b\<close> is \<open>a / b\<close> (\<open>b\<close> positive) rounded to the nearest integer,
  a tie going to the even one.
\<close>

definition round_half_even :: "int \<Rightarrow> int \<Rightarrow> int" where
  "round_half_even a b =
     (let n = a div b;
          r = a mod b
      in if 2 * r < b then n
         else if b < 2 * r then n + 1
         else if even n then n else n + 1)"

text \<open>
  The double nearest to the integer \<open>x\<close>, the result of an addition or subtraction whose
  exact value is \<open>x\<close>: with \<open>bitlen \<bar>x\<bar>\<close> bits, the lowest \<open>bitlen \<bar>x\<bar> - 53\<close> are rounded away.
\<close>

definition to_double :: "int \<Rightarrow> int" where
  "to_double x =
     (let e = bitlen \<bar>x\<bar> - 53
      in if e \<le> 0 then x else round_half_even x (2 ^ nat e) * 2 ^ nat e)"

text \<open>
  \<^verbatim>\<open>Math.floor(x / d)\<close> for an integer \<open>x\<close> and a positive integer \<open>d\<close>: the quotient
  is rounded to a double first. \<open>E\<close> is the exponent of the quotient
  (\<open>2^E \<le> \<bar>x\<bar> / d < 2^(E+1)\<close>), so the double is a multiple of \<open>2^s\<close> with \<open>s = E - 52\<close>.
\<close>

definition floor_quotient :: "int \<Rightarrow> int \<Rightarrow> int" where
  "floor_quotient x d =
     (if x = 0 then 0
      else
        (let k = bitlen \<bar>x\<bar> - bitlen d;
             E = (if 0 \<le> k then (if d * 2 ^ nat k \<le> \<bar>x\<bar> then k else k - 1)
                  else (if d \<le> \<bar>x\<bar> * 2 ^ nat (- k) then k else k - 1));
             s = E - 52
         in if 0 \<le> s then round_half_even x (d * 2 ^ nat s) * 2 ^ nat s
            else round_half_even (x * 2 ^ nat (- s)) d div 2 ^ nat (- s)))"

subsection \<open>The month grid\<close>

text \<open>
  \<^verbatim>\<open>datesByWeek\<close> is a JavaScript array of arrays that the loop indexes with a computed
  week number. An array is an object: a write under an index from 0 to \<open>2^32 - 2\<close> is an
  element and raises \<^verbatim>\<open>length\<close> above the index; a write under any other key, a
  negative number among them, is an ordinary property that neither \<^verbatim>\<open>length\<close> nor
  \<^verbatim>\<open>map\<close> sees. The record keeps both: every property by its key, and the length.
\<close>

record week_array =
  props :: "int \<rightharpoonup> Date list"
  arr_length :: nat

datatype error = TypeError

definition empty_array :: week_array where
  "empty_array = \<lparr>props = Map.empty, arr_length = 0\<rparr>"

text \<open>\<^verbatim>\<open>datesByWeek[week] = row\<close>.\<close>

definition arr_set :: "week_array \<Rightarrow> int \<Rightarrow> Date list \<Rightarrow> week_array" where
  "arr_set a k row =
     \<lparr>props = (props a)(k \<mapsto> row),
      arr_length = (if 0 \<le> k \<and> k < 4294967295 then max (arr_length a) (nat k + 1)
                    else arr_length a)\<rparr>"

text \<open>
  \<^verbatim>\<open>dates.push(date)\<close>, where \<^verbatim>\<open>dates\<close> is the value read from or just stored under
  \<^verbatim>\<open>datesByWeek[week]\<close>: the row object is shared with the outer array, so the push shows
  under that key. A call on \<^verbatim>\<open>undefined\<close> raises a TypeError.
\<close>

definition push_date :: "week_array \<Rightarrow> int \<Rightarrow> Date list option \<Rightarrow> Date \<Rightarrow> error + week_array" where
  "push_date a week dates date =
     (case dates of
        None \<Rightarrow> Inl TypeError
      | Some row \<Rightarrow> Inr (a\<lparr>props := (props a)(week \<mapsto> row @ [date])\<rparr>))"

text \<open>
  \<^verbatim>\<open>
  function getDatesByWeek(year: number, month: number, weekStart: number) {
    const datesByWeek: Date[][] = [];
    const firstDate = dateUtil.getFirstDateOfMonth(year, month);
    const firstDayOfWeek = firstDate.getDay();

    let start = 0;
    const startDelta = firstDayOfWeek - weekStart;
    if (startDelta > 0) start -= startDelta;

    // grid: 6 * 7
    for (let i = start; i < 42 + start; i++) {
      const week = Math.floor((i + startDelta) / 7);
      let dates = datesByWeek[week];
      if (!dates) dates = datesByWeek[week] = [];
      const date = new Date(year, month, i + 1);
      dates.push(date);
    }

    return datesByWeek;
  }
  \<close>
  \<open>fill_step\<close> is the body of the loop and \<open>fill\<close> the loop; an empty array is truthy, so
  \<^verbatim>\<open>!dates\<close> holds exactly when the key has no value yet. The counter is a double:
  \<^verbatim>\<open>i++\<close> is \<open>to_double (i + 1)\<close>, which beyond \<open>2^53\<close> need not be above \<open>i\<close>, so
  the loop is a partial function and \<open>None\<close> is the call that never returns.
\<close>

definition fill_step :: "int \<Rightarrow> int \<Rightarrow> int \<Rightarrow> int \<Rightarrow> week_array \<Rightarrow> error + week_array" where
  "fill_step year month startDelta i datesByWeek =
     (let week = floor_quotient (to_double (i + startDelta)) 7;
          dates = props datesByWeek week;
          datesByWeek' = (if dates = None then arr_set datesByWeek week [] else datesByWeek);
          dates' = (if dates = None then Some [] else dates);
          date = newDate year month (to_double (i + 1))
      in push_date datesByWeek' week dates' date)"

partial_function (option) fill ::
    "int \<Rightarrow> int \<Rightarrow> int \<Rightarrow> int \<Rightarrow> int \<Rightarrow> week_array \<Rightarrow> (error + week_array) option" where
  "fill year month startDelta start i datesByWeek =
     (if i < to_double (42 + start) then
        (case fill_step year month startDelta i datesByWeek of
           Inl e \<Rightarrow> Some (Inl e)
         | Inr datesByWeek' \<Rightarrow>
             fill year month startDelta start (to_double (i + 1)) datesByWeek')
      else Some (Inr datesByWeek))"

declare fill.simps [code]

definition getDatesByWeek :: "int \<Rightarrow> int \<Rightarrow> int \<Rightarrow> (error + week_array) option" where
  "getDatesByWeek year month weekStart =
     (let datesByWeek = empty_array;
          firstDate = getFirstDateOfMonth year month;
          firstDayOfWeek = getDay firstDate;
          startDelta = to_double (firstDayOfWeek - weekStart);
          start = (if startDelta > 0 then to_double (0 - startDelta) else 0)
      in fill year month startDelta start start datesByWeek)"

text \<open>
  What a caller sees of the returned array: its rows (\<^verbatim>\<open>grid.map\<close>, \<^verbatim>\<open>grid[r]\<close> for
  \<open>r\<close> below the length; a hole reads as \<^verbatim>\<open>undefined\<close>, here \<open>None\<close>) and its cells
  (\<^verbatim>\<open>grid[r][c]\<close>).
\<close>

definition rows :: "week_array \<Rightarrow> Date list option list" where
  "rows a = map (\<lambda>r. props a (int r)) [0..<arr_length a]"

definition cell :: "week_array \<Rightarrow> nat \<Rightarrow> nat \<Rightarrow> Date option" where
  "cell a r c =
     (if r < arr_length a then
        (case props a (int r) of
           None \<Rightarrow> None
         | Some row \<Rightarrow> (if c < length row then Some (row ! c) else None))
      else None)"

text \<open>
  The invariant of the loop that ties the two fields together: every element of the array
  lies below its length.
\<close>

definition elements_below_length :: "week_array \<Rightarrow> bool" where
  "elements_below_length a =
     (\<forall>k. props a k \<noteq> None \<longrightarrow> 0 \<le> k \<longrightarrow> k < 4294967295 \<longrightarrow> k < int (arr_length a))"

subsection \<open>Disabled dates\<close>

text \<open>
  \<^verbatim>\<open>
  function isDisabledDate(
    date: Date,
    today: Date,
    disableTodayAgo?: boolean,
    disabledDate?: (date: Date) => boolean
  ) {
    if (disabledDate && disabledDate(date)) return true;
    if (disableTodayAgo && dateUtil.lessThanDate(date, today)) return true;
    return false;
  }
  \<close>
  An optional parameter that the caller leaves out is \<open>None\<close>, which is falsy.
\<close>

definition isDisabledDate :: "Date \<Rightarrow> Date \<Rightarrow> bool option \<Rightarrow> (Date \<Rightarrow> bool) option \<Rightarrow> bool" where
  "isDisabledDate date today disableTodayAgo disabledDate =
     (if (case disabledDate of None \<Rightarrow> False | Some f \<Rightarrow> f date) then True
      else if (case disableTodayAgo of None \<Rightarrow> False | Some b \<Rightarrow> b) \<and> lessThanDate date today
        then True
      else False)"

section \<open>Properties of the decade functions\<close>

lemma getDecade_cases:
  "getDecade T Y =
     (if Y \<le> T then [T - (T - Y + 1) div 10 * 10 - 9, T - (T - Y + 1) div 10 * 10]
      else [T + (Y - T + 1) div 10 * 10 + 1, T + (Y - T + 1) div 10 * 10 + 10])"
  by (simp add: getDecade_def Let_def)

lemma years_loop_upto: "years_loop hi i years = years @ [i..hi]"
proof (induction hi i years rule: years_loop.induct)
  case (1 hi i years)
  show ?case
  proof (cases "i \<le> hi")
    case True
    then have "years_loop hi i years = years_loop hi (i + 1) (years @ [i])"
      by (simp add: years_loop.simps)
    also have "\<dots> = (years @ [i]) @ [i + 1..hi]"
      using "1" True by simp
    also have "\<dots> = years @ [i..hi]"
      using True by (simp add: upto_rec1)
    finally show ?thesis .
  next
    case False
    then show ?thesis by (simp add: years_loop.simps)
  qed
qed

text \<open>
  C2. \<^const>\<open>getDecade\<close> computes the decade of section 4.2: with \<open>T\<close> the current year, the
  returned pair is the start and the end that the specification's two branches give; and
  for \<open>T = 2024\<close> the year 2024 gives \<open>[2015, 2024]\<close> and the year 2030 gives \<open>[2025, 2034]\<close>.
\<close>

theorem getDecade_refines_spec:
  "getDecade T Y = [startYear (decade_spec T Y), endYear (decade_spec T Y)]
   \<and> getDecade 2024 2024 = [2015, 2024]
   \<and> getDecade 2024 2030 = [2025, 2034]"
  by (simp add: getDecade_def decade_spec_def Let_def)

text \<open>
  C7. For every year the returned window is a pair whose end is its start plus nine, in
  both branches.
\<close>

theorem getDecade_span:
  "length (getDecade T Y) = 2 \<and> getDecade T Y ! 1 = getDecade T Y ! 0 + 9"
  by (simp add: getDecade_cases)

text \<open>
  C8. Called with the current year itself, \<^const>\<open>getDecade\<close> returns a window that
  contains the current year.
\<close>

theorem getDecade_contains_thisYear:
  "getDecade T T ! 0 \<le> T \<and> T \<le> getDecade T T ! 1"
  by (simp add: getDecade_cases)

text \<open>
  C10. The window is aligned to the current year: its end is congruent to \<open>T\<close> modulo 10
  and its start to \<open>T + 1\<close>, in both branches.
\<close>

theorem getDecade_aligned:
  "getDecade T Y ! 1 mod 10 = T mod 10 \<and> getDecade T Y ! 0 mod 10 = (T + 1) mod 10"
proof (cases "Y \<le> T")
  case True
  define d where "d = (T - Y + 1) div 10"
  have "T - d * 10 = T + (- d) * 10" and "T - d * 10 - 9 = (T + 1) + (- d - 1) * 10"
    by (simp_all add: algebra_simps)
  then have "(T - d * 10) mod 10 = T mod 10" and "(T - d * 10 - 9) mod 10 = (T + 1) mod 10"
    by (simp_all only: mod_mult_self1)
  then show ?thesis using True by (simp add: getDecade_cases d_def)
next
  case False
  define d where "d = (Y - T + 1) div 10"
  have "T + d * 10 + 10 = T + (d + 1) * 10" and "T + d * 10 + 1 = (T + 1) + d * 10"
    by (simp_all add: algebra_simps)
  then have "(T + d * 10 + 10) mod 10 = T mod 10" and "(T + d * 10 + 1) mod 10 = (T + 1) mod 10"
    by (simp_all only: mod_mult_self1)
  then show ?thesis using False by (simp add: getDecade_cases d_def)
qed

text \<open>
  C5. For every year \<^const>\<open>getYearsByDecade\<close> returns exactly twelve years, strictly
  increasing: the consecutive years from the decade's start minus one to its end plus one.
\<close>

theorem getYearsByDecade_window:
  "length (getYearsByDecade T Y) = 12
   \<and> sorted_wrt (<) (getYearsByDecade T Y)
   \<and> getYearsByDecade T Y = [getDecade T Y ! 0 - 1 .. getDecade T Y ! 1 + 1]"
proof -
  have eq: "getYearsByDecade T Y = [getDecade T Y ! 0 - 1 .. getDecade T Y ! 1 + 1]"
    by (simp add: getYearsByDecade_def Let_def years_loop_upto)
  have "length [getDecade T Y ! 0 - 1 .. getDecade T Y ! 1 + 1] = 12"
    by (simp add: getDecade_cases)
  with eq show ?thesis
    by simp
qed

text \<open>
  Away from the current year the window does move with the year: when \<open>Y\<close> and \<open>Y + 10\<close>
  lie on the same side of the current year, ten years later is the window ten years later.
\<close>

lemma getDecade_shift:
  assumes "Y + 10 \<le> T \<or> T < Y"
  shows "getDecade T (Y + 10) = map (\<lambda>y. y + 10) (getDecade T Y)"
proof -
  have "(T - (Y + 10) + 1) div 10 = (T - Y + 1) div 10 - 1"
    and "(Y + 10 - T + 1) div 10 = (Y - T + 1) div 10 + 1"
    by linarith+
  with assms show ?thesis
    by (auto simp: getDecade_cases)
qed

text \<open>
  C3. The claim is that the window of \<open>Y + 10\<close> is the window of \<open>Y\<close> moved by ten years.
  With the current year 2024 the displayed year 2024 has the window \<open>[2015, 2024]\<close>, and
  the year 2034, which the header's next-decade button reaches, has \<open>[2035, 2044]\<close>: the
  window moves by twenty years, and the years 2025 to 2034 are passed over.
\<close>

theorem getDecade_next_decade_skips:
  "getDecade 2024 2024 = [2015, 2024] \<and> getDecade 2024 (2024 + 10) = [2035, 2044]"
  by (simp add: getDecade_def Let_def)

section \<open>The arithmetic of doubles\<close>

text \<open>Below \<open>2^53\<close> an integer is its own double, and the rounded quotient has the floor of
  the exact one.\<close>

lemma to_double_exact: "\<bar>x\<bar> < 9007199254740992 \<Longrightarrow> to_double x = x"
proof -
  assume "\<bar>x\<bar> < 9007199254740992"
  then have "bitlen \<bar>x\<bar> \<le> 53"
    by (simp add: bitlen_le_iff_power)
  then show ?thesis
    by (simp add: to_double_def)
qed

lemma round_half_even_nonpos: "0 < b \<Longrightarrow> a \<le> 0 \<Longrightarrow> round_half_even a b \<le> 0"
proof -
  assume b: "0 < b" and a: "a \<le> 0"
  show ?thesis
  proof (cases "a = 0")
    case True
    with b show ?thesis by (simp add: round_half_even_def)
  next
    case False
    with a b have "a div b < 0"
      by (simp add: div_neg_pos_less0)
    then show ?thesis
      by (simp add: round_half_even_def Let_def)
  qed
qed

lemma to_double_nonpos: "x \<le> 0 \<Longrightarrow> to_double x \<le> 0"
  by (simp add: to_double_def Let_def round_half_even_nonpos mult_le_0_iff)

lemma round_half_even_7:
  assumes "4 \<le> P"
  shows "round_half_even (x * P) 7 div P = x div 7"
proof -
  define n r where "n = (x * P) div 7" and "r = (x * P) mod 7"
  define a f where "a = x div 7" and "f = x mod 7"
  define M where "M = round_half_even (x * P) 7"
  have r: "0 \<le> r" "r < 7" and N: "x * P = 7 * n + r"
    by (simp_all add: n_def r_def)
  have f: "0 \<le> f" "f < 7" and x: "x = 7 * a + f"
    by (simp_all add: a_def f_def)
  have M: "M = (if r \<le> 3 then n else n + 1)"
    using r by (auto simp: M_def round_half_even_def n_def r_def Let_def)
  have xP: "x * P = 7 * (a * P) + f * P"
    by (subst x) (simp add: algebra_simps)
  have fP: "0 \<le> f * P" "f * P \<le> 6 * P" "f = 0 \<or> P \<le> f * P"
    using f assms by (auto simp: mult_le_cancel_right)
  have eq: "7 * n + r = 7 * (a * P) + f * P"
    using N xP by simp
  have lo: "a * P \<le> M"
  proof (cases "r \<le> 3")
    case True
    then have "M = n" using M by simp
    with eq fP(1) True show ?thesis by linarith
  next
    case False
    then have "M = n + 1" using M by simp
    with eq fP(1) r show ?thesis by linarith
  qed
  have hi: "M < a * P + P"
  proof (cases "r \<le> 3")
    case True
    then have "M = n" using M by simp
    with eq fP(2) r assms show ?thesis by linarith
  next
    case False
    then have "M = n + 1" using M by simp
    with eq fP(2) False assms show ?thesis by linarith
  qed
  have "M = P * a + (M - a * P)" by (simp add: algebra_simps)
  moreover have "0 \<le> M - a * P" "M - a * P < P" using lo hi by simp_all
  ultimately have "M div P = a"
    by (rule int_div_pos_eq)
  then show ?thesis by (simp add: M_def a_def)
qed

lemma bitlen_7: "bitlen 7 = 3"
  by code_simp

lemma floor_quotient_exact:
  assumes "\<bar>x\<bar> < 9007199254740992"
  shows "floor_quotient x 7 = x div 7"
proof (cases "x = 0")
  case True
  then show ?thesis by (simp add: floor_quotient_def)
next
  case False
  define k where "k = bitlen \<bar>x\<bar> - bitlen 7"
  define E where "E = (if 0 \<le> k then (if 7 * 2 ^ nat k \<le> \<bar>x\<bar> then k else k - 1)
                  else (if 7 \<le> \<bar>x\<bar> * 2 ^ nat (- k) then k else k - 1))"
  define s where "s = E - 52"
  have "bitlen \<bar>x\<bar> \<le> 53"
    using assms by (simp add: bitlen_le_iff_power)
  then have "k \<le> 50" by (simp add: k_def bitlen_7)
  moreover have "E \<le> k" by (simp add: E_def)
  ultimately have s: "s \<le> - 2" by (simp add: s_def)
  then have "(4::int) \<le> 2 ^ nat (- s)"
    using power_increasing [of 2 "nat (- s)" "2::int"] by simp
  then have "round_half_even (x * 2 ^ nat (- s)) 7 div 2 ^ nat (- s) = x div 7"
    by (rule round_half_even_7)
  moreover have "floor_quotient x 7 = round_half_even (x * 2 ^ nat (- s)) 7 div 2 ^ nat (- s)"
    using False s unfolding floor_quotient_def Let_def k_def [symmetric] E_def [symmetric] s_def [symmetric]
    by simp
  ultimately show ?thesis by simp
qed

section \<open>The loop of the month grid\<close>

text \<open>One pass of the loop never fails: it appends one date to the row of its week.\<close>

lemma fill_step_eq:
  "fill_step y m sd i a =
     Inr \<lparr>props = (props a)(floor_quotient (to_double (i + sd)) 7 \<mapsto>
             (case props a (floor_quotient (to_double (i + sd)) 7) of None \<Rightarrow> [] | Some row \<Rightarrow> row)
             @ [newDate y m (to_double (i + 1))]),
          arr_length =
            (if props a (floor_quotient (to_double (i + sd)) 7) = None
                \<and> 0 \<le> floor_quotient (to_double (i + sd)) 7
                \<and> floor_quotient (to_double (i + sd)) 7 < 4294967295
             then max (arr_length a) (nat (floor_quotient (to_double (i + sd)) 7) + 1)
             else arr_length a)\<rparr>"
  by (cases "props a (floor_quotient (to_double (i + sd)) 7)")
    (simp_all add: fill_step_def push_date_def arr_set_def Let_def)

lemma fill_step_Inr: "\<exists>a'. fill_step y m sd i a = Inr a'"
  using fill_step_eq by blast

text \<open>
  A counter that \<^verbatim>\<open>i++\<close> leaves where it is, below the bound of the loop, stays there:
  the loop does not return.
\<close>

lemma fill_Some_not_stuck:
  assumes "fill y m sd start i a = Some r"
  shows "\<not> (to_double (i + 1) = i \<and> i < to_double (42 + start))"
proof (rule fill.raw_induct [where P = "\<lambda>y m sd start i a r.
    \<not> (to_double (i + 1) = i \<and> i < to_double (42 + start))"], goal_cases)
  case (1 f y m sd start i a r)
  show ?case
  proof
    assume st: "to_double (i + 1) = i \<and> i < to_double (42 + start)"
    obtain a' where a': "fill_step y m sd i a = Inr a'"
      using fill_step_Inr by blast
    with st "1"(2) have "f y m sd start i a' = Some r"
      by simp
    then have "\<not> (to_double (i + 1) = i \<and> i < to_double (42 + start))"
      by (rule "1"(1))
    with st show False by simp
  qed
next
  show "fill y m sd start i a = Some r" by (rule assms)
qed

lemma fill_stuck:
  assumes "to_double (i + 1) = i" and "i < to_double (42 + start)"
  shows "fill y m sd start i a = None"
  using assms fill_Some_not_stuck [of y m sd start i a]
  by (cases "fill y m sd start i a") auto

text \<open>
  From \<open>- 2^53\<close> upwards, and with the bound \<open>42 + start\<close> below \<open>2^53\<close>, the counter is
  exact: the loop makes its passes one by one and returns.
\<close>

lemma fill_unfold:
  assumes "- 9007199254740992 \<le> i" and "\<bar>42 + start\<bar> < 9007199254740992"
  shows "fill y m sd start i a =
     (if i < 42 + start then
        (case fill_step y m sd i a of
           Inl e \<Rightarrow> Some (Inl e)
         | Inr a' \<Rightarrow> fill y m sd start (i + 1) a')
      else Some (Inr a))"
proof (cases "i < 42 + start")
  case True
  with assms have "\<bar>i + 1\<bar> < 9007199254740992" by simp
  then have e: "to_double (i + 1) = i + 1" "to_double (42 + start) = 42 + start"
    using assms(2) by (simp_all add: to_double_exact)
  show ?thesis
    by (subst fill.simps) (unfold e, rule refl)
next
  case False
  with assms(2) show ?thesis
    by (subst fill.simps) (simp add: to_double_exact)
qed

lemma fill_step_exact:
  assumes "\<bar>i + sd\<bar> < 9007199254740992" and "\<bar>i + 1\<bar> < 9007199254740992"
  shows "fill_step y m sd i a =
     Inr \<lparr>props = (props a)((i + sd) div 7 \<mapsto>
             (case props a ((i + sd) div 7) of None \<Rightarrow> [] | Some row \<Rightarrow> row) @ [newDate y m (i + 1)]),
          arr_length =
            (if props a ((i + sd) div 7) = None \<and> 0 \<le> (i + sd) div 7 \<and> (i + sd) div 7 < 4294967295
             then max (arr_length a) (nat ((i + sd) div 7) + 1) else arr_length a)\<rparr>"
  unfolding fill_step_eq using assms by (simp add: to_double_exact floor_quotient_exact)

lemma fill_returns:
  assumes "- 9007199254740992 \<le> i" and "\<bar>42 + start\<bar> < 9007199254740992"
  shows "\<exists>a'. fill y m sd start i a = Some (Inr a')"
  using assms(1)
proof (induction "nat (42 + start - i)" arbitrary: i a rule: less_induct)
  case less
  show ?case
  proof (cases "i < 42 + start")
    case True
    obtain a1 where s: "fill_step y m sd i a = Inr a1"
      using fill_step_Inr by blast
    have "nat (42 + start - (i + 1)) < nat (42 + start - i)" and "- 9007199254740992 \<le> i + 1"
      using True less.prems by simp_all
    then obtain a' where "fill y m sd start (i + 1) a1 = Some (Inr a')"
      using less.hyps by blast
    with True s show ?thesis
      by (simp add: fill_unfold [OF less.prems assms(2)])
  next
    case False
    then show ?thesis
      by (simp add: fill_unfold [OF less.prems assms(2)])
  qed
qed

text \<open>
  What the loop leaves under a key \<open>k\<close> when the week numbers are exact as well: the dates
  of the indices from \<open>i\<close> to \<open>41 + start\<close> whose week number is \<open>k\<close>, in order, after what
  the key held before.
\<close>

lemma fill_props:
  assumes "\<bar>42 + start\<bar> < 9007199254740992" and "41 + start + sd < 9007199254740992"
    and "- 9007199254740992 \<le> i" and "- 9007199254740992 < i + sd"
    and "fill y m sd start i a = Some (Inr a')"
  shows "props a' k =
     (if [j \<leftarrow> [i..41 + start]. (j + sd) div 7 = k] = [] then props a k
      else Some ((case props a k of None \<Rightarrow> [] | Some row \<Rightarrow> row)
                 @ map (\<lambda>j. newDate y m (j + 1)) [j \<leftarrow> [i..41 + start]. (j + sd) div 7 = k]))"
  using assms(3-5)
proof (induction "nat (42 + start - i)" arbitrary: i a rule: less_induct)
  case less
  note unf = fill_unfold [OF less.prems(1) assms(1)]
  show ?case
  proof (cases "i < 42 + start")
    case True
    have ex: "\<bar>i + sd\<bar> < 9007199254740992" "\<bar>i + 1\<bar> < 9007199254740992"
      using True less.prems assms(1,2) by simp_all
    define a1 where "a1 = \<lparr>props = (props a)((i + sd) div 7 \<mapsto>
             (case props a ((i + sd) div 7) of None \<Rightarrow> [] | Some row \<Rightarrow> row) @ [newDate y m (i + 1)]),
          arr_length =
            (if props a ((i + sd) div 7) = None \<and> 0 \<le> (i + sd) div 7 \<and> (i + sd) div 7 < 4294967295
             then max (arr_length a) (nat ((i + sd) div 7) + 1) else arr_length a)\<rparr>"
    have s: "fill_step y m sd i a = Inr a1"
      unfolding a1_def by (rule fill_step_exact [OF ex])
    have a1: "props a1 = (props a)((i + sd) div 7 \<mapsto>
             (case props a ((i + sd) div 7) of None \<Rightarrow> [] | Some row \<Rightarrow> row) @ [newDate y m (i + 1)])"
      by (simp add: a1_def)
    have r: "fill y m sd start (i + 1) a1 = Some (Inr a')"
      using less.prems(3) True s by (simp add: unf)
    have m: "nat (42 + start - (i + 1)) < nat (42 + start - i)"
      using True by simp
    have u: "[i..41 + start] = i # [i + 1..41 + start]"
      using True by (simp add: upto_rec1)
    have ih: "props a' k =
     (if [j \<leftarrow> [i + 1..41 + start]. (j + sd) div 7 = k] = [] then props a1 k
      else Some ((case props a1 k of None \<Rightarrow> [] | Some row \<Rightarrow> row)
                 @ map (\<lambda>j. newDate y m (j + 1)) [j \<leftarrow> [i + 1..41 + start]. (j + sd) div 7 = k]))"
      using less.prems by (intro less.hyps [OF m _ _ r]) simp_all
    show ?thesis
      unfolding ih u a1 by (simp split: option.splits)
  next
    case False
    then have "a' = a" using less.prems(3) by (simp add: unf)
    with False show ?thesis by simp
  qed
qed

text \<open>The length of the array: the invariant, and an upper bound.\<close>

lemma elements_below_lengthD:
  "elements_below_length a \<Longrightarrow> props a k \<noteq> None \<Longrightarrow> 0 \<le> k \<Longrightarrow> k < 4294967295 \<Longrightarrow>
   k < int (arr_length a)"
  by (simp add: elements_below_length_def)

lemma fill_step_elements:
  assumes "elements_below_length a" and "fill_step y m sd i a = Inr a1"
  shows "elements_below_length a1"
proof -
  define w where "w = floor_quotient (to_double (i + sd)) 7"
  have p: "props a1 = (props a)(w \<mapsto> (case props a w of None \<Rightarrow> [] | Some row \<Rightarrow> row)
             @ [newDate y m (to_double (i + 1))])"
    and l: "arr_length a1 = (if props a w = None \<and> 0 \<le> w \<and> w < 4294967295
                              then max (arr_length a) (nat w + 1) else arr_length a)"
    using assms(2) by (auto simp: fill_step_eq w_def)
  have "k < int (arr_length a1)"
    if k: "props a1 k \<noteq> None" "0 \<le> k" "k < 4294967295" for k
  proof (cases "k = w")
    case True
    show ?thesis
    proof (cases "props a w")
      case None
      with True k l show ?thesis by simp
    next
      case (Some row)
      with assms(1) True k have "k < int (arr_length a)"
        by (simp add: elements_below_length_def)
      with Some l show ?thesis by simp
    qed
  next
    case False
    with k p have "props a k \<noteq> None" by simp
    with assms(1) k have "k < int (arr_length a)"
      by (simp add: elements_below_length_def)
    moreover have "arr_length a \<le> arr_length a1" using l by simp
    ultimately show ?thesis by simp
  qed
  then show ?thesis by (simp add: elements_below_length_def)
qed

lemma fill_elements:
  assumes "\<bar>42 + start\<bar> < 9007199254740992"
    and "- 9007199254740992 \<le> i"
    and "elements_below_length a" and "fill y m sd start i a = Some (Inr a')"
  shows "elements_below_length a'"
  using assms(2-4)
proof (induction "nat (42 + start - i)" arbitrary: i a rule: less_induct)
  case less
  note unf = fill_unfold [OF less.prems(1) assms(1)]
  show ?case
  proof (cases "i < 42 + start")
    case True
    obtain a1 where s: "fill_step y m sd i a = Inr a1"
      using fill_step_Inr by blast
    have r: "fill y m sd start (i + 1) a1 = Some (Inr a')"
      using less.prems(3) True s by (simp add: unf)
    have m: "nat (42 + start - (i + 1)) < nat (42 + start - i)"
      using True by simp
    have "- 9007199254740992 \<le> i + 1" using less.prems(1) by simp
    from less.hyps [OF m this fill_step_elements [OF less.prems(2) s] r] show ?thesis .
  next
    case False
    then have "a' = a" using less.prems(3) by (simp add: unf)
    with less.prems show ?thesis by simp
  qed
qed

lemma fill_length_le:
  assumes "\<bar>42 + start\<bar> < 9007199254740992" and "41 + start + sd < 9007199254740992"
    and "\<And>j. j \<le> 41 + start \<Longrightarrow> (j + sd) div 7 < int n"
    and "- 9007199254740992 \<le> i" and "- 9007199254740992 < i + sd"
    and "arr_length a \<le> n"
    and "fill y m sd start i a = Some (Inr a')"
  shows "arr_length a' \<le> n"
  using assms(4-7)
proof (induction "nat (42 + start - i)" arbitrary: i a rule: less_induct)
  case less
  note unf = fill_unfold [OF less.prems(1) assms(1)]
  show ?case
  proof (cases "i < 42 + start")
    case True
    have ex: "\<bar>i + sd\<bar> < 9007199254740992" "\<bar>i + 1\<bar> < 9007199254740992"
      using True less.prems assms(1,2) by simp_all
    obtain a1 where s: "fill_step y m sd i a = Inr a1"
      using fill_step_Inr by blast
    have "(i + sd) div 7 < int n"
      using assms(3) [of i] True by simp
    then have l: "arr_length a1 \<le> n"
      using s less.prems(3) by (auto simp: fill_step_exact [OF ex])
    have r: "fill y m sd start (i + 1) a1 = Some (Inr a')"
      using less.prems(4) True s by (simp add: unf)
    have m: "nat (42 + start - (i + 1)) < nat (42 + start - i)"
      using True by simp
    show ?thesis
      using less.prems by (intro less.hyps [OF m _ _ l r]) simp_all
  next
    case False
    then have "a' = a" using less.prems(4) by (simp add: unf)
    with less.prems show ?thesis by simp
  qed
qed

text \<open>The indices of one week form an interval.\<close>

lemma filter_upto_range: "[j \<leftarrow> [a..b]. l \<le> j \<and> j \<le> u] = [max a l..min b u]"
proof (induction a b rule: upto.induct)
  case (1 a b)
  show ?case
  proof (cases "a \<le> b")
    case le: True
    then have u: "[a..b] = a # [a + 1..b]" by (simp add: upto_rec1)
    have ih: "[j \<leftarrow> [a + 1..b]. l \<le> j \<and> j \<le> u] = [max (a + 1) l..min b u]"
      using "1" le by simp
    show ?thesis
    proof (cases "l \<le> a \<and> a \<le> u")
      case True
      then have "max a l = a" and "max (a + 1) l = a + 1" and "a \<le> min b u"
        using le by simp_all
      then have "[max a l..min b u] = a # [max (a + 1) l..min b u]"
        by (simp add: upto_rec1)
      with True u ih show ?thesis by simp
    next
      case False
      then consider "a < l" | "u < a" by linarith
      then have "[max a l..min b u] = [max (a + 1) l..min b u]"
      proof cases
        case 1
        then have "max a l = l" and "max (a + 1) l = l" by simp_all
        then show ?thesis by simp
      next
        case 2
        then have "min b u < max a l" and "min b u < max (a + 1) l" by simp_all
        then show ?thesis by simp
      qed
      with False u ih show ?thesis by auto
    qed
  next
    case False
    then have "min b u < max a l" by simp
    with False show ?thesis by simp
  qed
qed

lemma week_filter:
  "[j \<leftarrow> [a..b]. (j + sd) div 7 = k] = [max a (7 * k - sd)..min b (7 * k + 6 - sd)]"
proof -
  have "\<And>j::int. ((j + sd) div 7 = k) = (7 * k - sd \<le> j \<and> j \<le> 7 * k + 6 - sd)"
    by linarith
  then show ?thesis
    by (simp add: filter_upto_range)
qed

lemma upto_week: "[l..l + 6] = map (\<lambda>c. l + int c) [0..<7]"
proof -
  have "[0..<7] = [0, 1, 2, 3, 4, 5, 6::nat]"
    by (simp add: upt_rec)
  moreover have "[l..l + 6] = [l, l + 1, l + 2, l + 3, l + 4, l + 5, l + 6]"
    by (simp add: upto_rec1)
  ultimately show ?thesis by simp
qed

subsection \<open>Days and weekdays\<close>

lemma newDate_add_days: "newDate y m (d + k) = newDate y m d + k * msPerDay"
  by (simp add: newDate_def MakeDay_def Let_def algebra_simps)

lemma Day_newDate: "Day (newDate y m d) = Day (newDate y m 1) + d - 1"
  by (simp add: newDate_def MakeDay_def Day_def msPerDay_def Let_def)

lemma Day_newDate_time:
  assumes "0 \<le> s" and "s < msPerDay"
  shows "Day (newDate y m d + s) = Day (newDate y m d)"
proof -
  define K where "K = MakeDay (if 0 \<le> y \<and> y \<le> 99 then 1900 + y else y) m d"
  have K: "newDate y m d = K * msPerDay"
    by (simp add: newDate_def Let_def K_def)
  have "(s + K * msPerDay) div msPerDay = K + s div msPerDay"
    by (rule div_mult_self1) (simp add: msPerDay_def)
  moreover have "s div msPerDay = 0"
    using assms by simp
  ultimately show ?thesis
    by (simp add: Day_def K add.commute msPerDay_def)
qed


lemma getDay_range: "0 \<le> getDay t \<and> getDay t \<le> 6"
  by (simp add: getDay_def WeekDay_def)

subsection \<open>The function as a whole\<close>

lemma getDatesByWeek_fill:
  "sd = to_double (getDay (getFirstDateOfMonth y m) - ws) \<Longrightarrow>
   st = (if sd > 0 then to_double (0 - sd) else 0) \<Longrightarrow>
   getDatesByWeek y m ws = fill y m sd st st empty_array"
  by (simp add: getDatesByWeek_def Let_def)

text \<open>
  From \<open>7 - 2^53\<close> upwards \<open>weekStart\<close> leaves the counter exact: a positive \<open>startDelta\<close>
  is below \<open>2^53\<close>, and otherwise \<open>start\<close> is 0.
\<close>

lemma getDatesByWeek_counter:
  assumes "- 9007199254740985 \<le> ws"
    and "sd = to_double (getDay (getFirstDateOfMonth y m) - ws)"
    and "st = (if sd > 0 then to_double (0 - sd) else 0)"
  shows "- 9007199254740992 \<le> st" and "\<bar>42 + st\<bar> < 9007199254740992"
proof -
  define x where "x = getDay (getFirstDateOfMonth y m) - ws"
  have x: "x < 9007199254740992"
    using assms(1) getDay_range [of "getFirstDateOfMonth y m"] by (simp add: x_def)
  have "- 9007199254740992 \<le> st \<and> \<bar>42 + st\<bar> < 9007199254740992"
  proof (cases "sd > 0")
    case True
    then have "0 < to_double x"
      using assms(2) by (simp add: x_def)
    then have "0 < x"
      using to_double_nonpos [of x] by linarith
    with x have "sd = x"
      using assms(2) by (simp add: x_def to_double_exact)
    with x \<open>0 < x\<close> True have "st = - x"
      using assms(3) by (simp add: to_double_exact)
    with x \<open>0 < x\<close> show ?thesis by simp
  next
    case False
    then show ?thesis using assms(3) by simp
  qed
  then show "- 9007199254740992 \<le> st" and "\<bar>42 + st\<bar> < 9007199254740992"
    by simp_all
qed

lemma getDatesByWeek_Inr:
  assumes "- 9007199254740985 \<le> ws"
  shows "\<exists>a. getDatesByWeek y m ws = Some (Inr a)"
  unfolding getDatesByWeek_fill [OF refl refl]
  by (rule fill_returns [OF getDatesByWeek_counter [OF assms refl refl]])

lemma getDatesByWeek_elements:
  assumes "- 9007199254740985 \<le> ws" and "getDatesByWeek y m ws = Some (Inr a)"
  shows "elements_below_length a"
proof -
  define sd where "sd = to_double (getDay (getFirstDateOfMonth y m) - ws)"
  define st where "st = (if sd > 0 then to_double (0 - sd) else 0)"
  note c = getDatesByWeek_counter [OF assms(1) sd_def st_def]
  have e: "elements_below_length empty_array"
    by (simp add: elements_below_length_def empty_array_def)
  have f: "fill y m sd st st empty_array = Some (Inr a)"
    using assms(2) unfolding getDatesByWeek_fill [OF sd_def st_def] .
  show ?thesis
    by (rule fill_elements [OF c(2) c(1) e f])
qed

text \<open>Below \<open>2^53\<close> as well, \<open>weekStart\<close> leaves every number of the loop exact.\<close>

lemma getDatesByWeek_exact:
  assumes "- 9007199254740985 \<le> ws" and "ws < 9007199254740992"
    and "sd = getDay (getFirstDateOfMonth y m) - ws"
    and "st = (if sd > 0 then - sd else 0)"
  shows "getDatesByWeek y m ws = fill y m sd st st empty_array"
    and "\<bar>42 + st\<bar> < 9007199254740992" and "41 + st + sd < 9007199254740992"
    and "- 9007199254740992 \<le> st" and "- 9007199254740992 < st + sd"
proof -
  have sd: "\<bar>sd\<bar> < 9007199254740992"
    using assms(1-3) getDay_range [of "getFirstDateOfMonth y m"] by linarith
  then have "to_double (getDay (getFirstDateOfMonth y m) - ws) = sd"
    and "to_double (0 - sd) = - sd"
    using assms(3) by (simp_all add: to_double_exact)
  then show "getDatesByWeek y m ws = fill y m sd st st empty_array"
    using assms(4) by (simp add: getDatesByWeek_def Let_def)
  show "\<bar>42 + st\<bar> < 9007199254740992" and "41 + st + sd < 9007199254740992"
    and "- 9007199254740992 \<le> st" and "- 9007199254740992 < st + sd"
    using sd assms(4) by (simp_all split: if_splits)
qed

lemma getDatesByWeek_props:
  assumes "- 9007199254740985 \<le> ws" and "ws < 9007199254740992"
    and "getDatesByWeek y m ws = Some (Inr a)"
    and "sd = getDay (getFirstDateOfMonth y m) - ws"
    and "st = (if sd > 0 then - sd else 0)"
  shows "props a k =
     (if [max st (7 * k - sd)..min (41 + st) (7 * k + 6 - sd)] = [] then None
      else Some (map (\<lambda>j. newDate y m (j + 1)) [max st (7 * k - sd)..min (41 + st) (7 * k + 6 - sd)]))"
proof -
  note e = getDatesByWeek_exact [OF assms(1,2,4,5)]
  have "fill y m sd st st empty_array = Some (Inr a)"
    using assms(3) unfolding e(1) .
  from fill_props [OF e(2,3,4,5) this, of k] show ?thesis
    by (simp add: week_filter empty_array_def)
qed

lemma getDatesByWeek_length_le:
  assumes "- 9007199254740985 \<le> ws" and "ws < 9007199254740992"
    and "getDatesByWeek y m ws = Some (Inr a)"
  shows "arr_length a \<le> 6"
proof -
  define sd where "sd = getDay (getFirstDateOfMonth y m) - ws"
  define st where "st = (if sd > 0 then - sd else 0)"
  note e = getDatesByWeek_exact [OF assms(1,2) sd_def st_def]
  have f: "fill y m sd st st empty_array = Some (Inr a)"
    using assms(3) unfolding e(1) .
  have "(j + sd) div 7 < int 6" if "j \<le> 41 + st" for j
    using that by (simp add: st_def split: if_splits)
  from fill_length_le [OF e(2,3) this e(4,5) _ f] show ?thesis
    by (simp add: empty_array_def)
qed

section \<open>Properties of the month grid\<close>

text \<open>
  C9. The claim is that \<^const>\<open>getDatesByWeek\<close> returns an array, without an error, for every
  integer year, month and \<open>weekStart\<close>. It does for every year and month and every
  \<open>weekStart\<close> from \<open>7 - 2^53 = -9007199254740985\<close> upwards, however far outside 0..6:
  \<open>firstDayOfWeek - weekStart\<close> is then below \<open>2^53\<close>, the counter is exact, the loop ends
  after its 42 passes, and no pass raises an error.
\<close>

theorem getDatesByWeek_returns:
  assumes "- 9007199254740985 \<le> weekStart"
  shows "\<exists>a. getDatesByWeek year month weekStart = Some (Inr a)"
  using assms by (rule getDatesByWeek_Inr)

theorem getDatesByWeek_returns_witness:
  "\<exists>a. getDatesByWeek 2024 5 100 = Some (Inr a)"
  using getDatesByWeek_returns [of 100 2024 5] by simp

text \<open>
  Further down it need not return. June 2024 begins on a Saturday (weekday 6); with
  \<open>weekStart = -9007199254740991\<close>, the least safe integer, \<open>startDelta\<close> is
  \<open>2^53 + 5\<close> rounded to \<open>2^53 + 4\<close>, so the counter starts at \<open>-9007199254740996\<close>, where
  \<open>i + 1\<close> rounds back to \<open>i\<close>, below the bound \<open>-9007199254740954\<close>: the loop never ends.
\<close>

theorem getDatesByWeek_never_returns:
  "getDatesByWeek 2024 5 (- 9007199254740991) = None"
proof -
  have fd: "getDay (getFirstDateOfMonth 2024 5) = 6"
    by (simp add: getFirstDateOfMonth_def getDay_def WeekDay_def Day_def newDate_def MakeDay_def
        MonthStart_def DayFromYear_def DaysInYear_def msPerDay_def Let_def)
  have sd: "to_double 9007199254740997 = 9007199254740996"
    by code_simp
  have st: "to_double (- 9007199254740996) = - 9007199254740996"
    by code_simp
  have "to_double (- 9007199254740996 + 1) = - 9007199254740996"
    and "- 9007199254740996 < to_double (42 + - 9007199254740996)"
    by code_simp+
  then have "fill 2024 5 9007199254740996 (- 9007199254740996) (- 9007199254740996) empty_array = None"
    by (rule fill_stuck)
  then show ?thesis
    by (simp add: getDatesByWeek_def Let_def fd sd st)
qed



text \<open>
  When \<open>weekStart\<close> is not after the weekday of the first of the month, the grid is the one
  the comment \<^verbatim>\<open>// grid: 6 * 7\<close> announces: six rows of seven dates, and the date in row
  \<open>r\<close> and column \<open>c\<close> is \<open>7 * r + c - startDelta\<close> days after the first of the month, so
  the 42 dates in row-major order are consecutive days.
\<close>

lemma getDatesByWeek_grid:
  assumes "- 9007199254740985 \<le> weekStart"
    and "weekStart \<le> getDay (getFirstDateOfMonth year month)"
    and "sd = getDay (getFirstDateOfMonth year month) - weekStart"
  shows "\<exists>a. getDatesByWeek year month weekStart = Some (Inr a) \<and>
           rows a = map (\<lambda>r. Some (map (\<lambda>c. newDate year month 1 + (7 * int r + int c - sd) * msPerDay)
                                     [0..<7])) [0..<6]"
proof -
  define st where "st = (if sd > 0 then - sd else 0)"
  have st: "st = - sd" using assms by (simp add: st_def)
  have ws: "weekStart < 9007199254740992"
    using assms(2) getDay_range [of "getFirstDateOfMonth year month"] by simp
  obtain a where a: "getDatesByWeek year month weekStart = Some (Inr a)"
    using getDatesByWeek_Inr [OF assms(1)] by blast
  have row: "props a (int r) =
      Some (map (\<lambda>c. newDate year month 1 + (7 * int r + int c - sd) * msPerDay) [0..<7])"
    if "r < 6" for r
  proof -
    have "max st (7 * int r - sd) = 7 * int r - sd"
      and "min (41 + st) (7 * int r + 6 - sd) = (7 * int r - sd) + 6"
      using that by (simp_all add: st)
    then have "props a (int r) =
        Some (map (\<lambda>j. newDate year month (j + 1)) [7 * int r - sd..(7 * int r - sd) + 6])"
      unfolding getDatesByWeek_props [OF assms(1) ws a assms(3) st_def, of "int r"] by simp
    moreover have "newDate year month (7 * int r - sd + int c + 1)
        = newDate year month 1 + (7 * int r + int c - sd) * msPerDay" for c
      using newDate_add_days [of year month 1 "7 * int r + int c - sd"]
      by (simp add: algebra_simps)
    ultimately show ?thesis
      by (simp add: upto_week comp_def)
  qed
  have "props a (int 5) \<noteq> None" using row [of 5] by simp
  then have "int 5 < int (arr_length a)"
    by (rule elements_below_lengthD [OF getDatesByWeek_elements [OF assms(1) a]]) simp_all
  with getDatesByWeek_length_le [OF assms(1) ws a] have "arr_length a = 6" by simp
  then have "rows a = map (\<lambda>r. Some (map (\<lambda>c. newDate year month 1 + (7 * int r + int c - sd) * msPerDay)
                                     [0..<7])) [0..<6]"
    unfolding rows_def using row by (simp del: upt_Suc)
  with a show ?thesis by blast
qed

text \<open>
  When \<open>weekStart\<close> is after the weekday of the first of the month, \<open>startDelta\<close> is negative
  and \<open>start\<close> stays 0: the first \<open>n = - startDelta\<close> passes compute the week number \<open>-1\<close>,
  which is no element of the array. The first \<open>n\<close> days of the month end up under the
  property \<open>-1\<close>, and the last row keeps only \<open>7 - n\<close> dates.
\<close>

lemma getDatesByWeek_short_grid:
  assumes "getDay (getFirstDateOfMonth year month) < weekStart" and "weekStart \<le> 6"
    and "n = weekStart - getDay (getFirstDateOfMonth year month)"
  shows "\<exists>a. getDatesByWeek year month weekStart = Some (Inr a)
           \<and> arr_length a = 6
           \<and> props a (- 1) = Some (map (\<lambda>j. newDate year month (j + 1)) [0..n - 1])
           \<and> props a 5 = Some (map (\<lambda>j. newDate year month (j + 1)) [35 + n..41])"
proof -
  define sd where "sd = getDay (getFirstDateOfMonth year month) - weekStart"
  define st where "st = (if sd > 0 then - sd else 0)"
  have st: "st = 0" and sd: "sd = - n" and n: "1 \<le> n" "n \<le> 6"
    using assms getDay_range [of "getFirstDateOfMonth year month"] by (simp_all add: st_def sd_def)
  have ws: "- 9007199254740985 \<le> weekStart" "weekStart < 9007199254740992"
    using assms getDay_range [of "getFirstDateOfMonth year month"] by simp_all
  obtain a where a: "getDatesByWeek year month weekStart = Some (Inr a)"
    using getDatesByWeek_Inr [OF ws(1)] by blast
  have "max st (7 * (- 1) - sd) = 0" and "min (41 + st) (7 * (- 1) + 6 - sd) = n - 1"
    using n by (simp_all add: st sd)
  then have r1: "props a (- 1) = Some (map (\<lambda>j. newDate year month (j + 1)) [0..n - 1])"
    unfolding getDatesByWeek_props [OF ws a sd_def st_def, of "- 1"] using n by simp
  have "max st (7 * 5 - sd) = 35 + n" and "min (41 + st) (7 * 5 + 6 - sd) = 41"
    using n by (simp_all add: st sd)
  then have r5: "props a 5 = Some (map (\<lambda>j. newDate year month (j + 1)) [35 + n..41])"
    unfolding getDatesByWeek_props [OF ws a sd_def st_def, of 5] using n by simp
  then have "props a 5 \<noteq> None" by simp
  then have "5 < int (arr_length a)"
    by (rule elements_below_lengthD [OF getDatesByWeek_elements [OF ws(1) a]]) simp_all
  with getDatesByWeek_length_le [OF ws a] have "arr_length a = 6" by simp
  with a r1 r5 show ?thesis by blast
qed

text \<open>
  C1. The claim is that for every year, every month from 0 to 11 and every \<open>weekStart\<close> from
  0 to 6 the grid has six rows of seven dates, 42 consecutive days. September 2024 begins on
  a Sunday (weekday 0); with \<open>weekStart = 1\<close> (Monday) the array still has six rows, but the
  last one has six dates only, 41 in all: the first cell is 2 September, and 1 September is
  stored under the property \<open>-1\<close>, outside the rows.
\<close>

theorem getDatesByWeek_drops_first_day:
  "\<exists>a. getDatesByWeek 2024 8 1 = Some (Inr a)
      \<and> map (map_option length) (rows a) = [Some 7, Some 7, Some 7, Some 7, Some 7, Some 6]
      \<and> props a (- 1) = Some [newDate 2024 8 1]
      \<and> cell a 0 0 = Some (newDate 2024 8 2)
      \<and> getDay (newDate 2024 8 1) = 0"
  by (simp add: getDatesByWeek_def fill.simps fill_step_def push_date_def arr_set_def
      to_double_exact floor_quotient_exact
      empty_array_def rows_def cell_def getFirstDateOfMonth_def getDay_def WeekDay_def Day_def
      newDate_def MakeDay_def MonthStart_def DayFromYear_def DaysInYear_def msPerDay_def Let_def
      upt_rec)

section \<open>Properties of the disabled-date test\<close>

text \<open>
  C6. \<^const>\<open>isDisabledDate\<close> is true exactly when the predicate is supplied and true of the
  date, or \<open>disableTodayAgo\<close> is true and the date is before today by calendar date. With
  \<open>disableTodayAgo\<close> true and today any time of 15 June 2024, a date on 14 June 2024 is
  disabled whatever the predicate, and a date on 16 June 2024 is disabled exactly when the
  predicate is supplied and true of it. (\<open>s\<close> and \<open>tod\<close> are times of day in milliseconds.)
\<close>

theorem isDisabledDate_iff:
  assumes "0 \<le> s" and "s < msPerDay" and "0 \<le> tod" and "tod < msPerDay"
  shows "isDisabledDate date today disableTodayAgo disabledDate =
           ((\<exists>p. disabledDate = Some p \<and> p date)
            \<or> (disableTodayAgo = Some True \<and> Day date < Day today))
         \<and> isDisabledDate (newDate 2024 5 14 + s) (newDate 2024 5 15 + tod) (Some True) disabledDate
         \<and> isDisabledDate (newDate 2024 5 16 + s) (newDate 2024 5 15 + tod) (Some True) disabledDate
             = (\<exists>p. disabledDate = Some p \<and> p (newDate 2024 5 16 + s))"
proof -
  have iff: "isDisabledDate d t a f =
      ((\<exists>p. f = Some p \<and> p d) \<or> (a = Some True \<and> Day d < Day t))" for d t a f
    by (cases f; cases a) (auto simp: isDisabledDate_def lessThanDate_def)
  have d: "Day (newDate 2024 5 14 + s) = Day (newDate 2024 5 1) + 13"
    "Day (newDate 2024 5 16 + s) = Day (newDate 2024 5 1) + 15"
    "Day (newDate 2024 5 15 + tod) = Day (newDate 2024 5 1) + 14"
    using assms by (simp_all add: Day_newDate_time Day_newDate [of 2024 5 14]
        Day_newDate [of 2024 5 15] Day_newDate [of 2024 5 16])
  show ?thesis
    unfolding iff d by simp
qed

theorem isDisabledDate_iff_witness:
  "isDisabledDate (newDate 2024 5 14) (newDate 2024 5 15 + 49500000) (Some True) None
   \<and> \<not> isDisabledDate (newDate 2024 5 16) (newDate 2024 5 15 + 49500000) (Some True) None"
proof -
  have "(0::int) \<le> 0" and "(0::int) < msPerDay" and "(0::int) \<le> 49500000"
    and "(49500000::int) < msPerDay"
    by (simp_all add: msPerDay_def)
  from isDisabledDate_iff [OF this, where date = "newDate 2024 5 14"
      and today = "newDate 2024 5 15 + 49500000" and disableTodayAgo = "Some True"
      and disabledDate = None]
  have "isDisabledDate (newDate 2024 5 14 + 0) (newDate 2024 5 15 + 49500000) (Some True) None"
    and "isDisabledDate (newDate 2024 5 16 + 0) (newDate 2024 5 15 + 49500000) (Some True) None
      = (\<exists>p. None = Some p \<and> p (newDate 2024 5 16 + 0))"
    by blast+
  then show ?thesis by simp
qed

end
